theory Spec2Isabelle
  imports Complex_Main "HOL-Library.AList" "HOL-Library.Sublist"
begin

section \<open>Browser calls and their answers\<close>

text \<open>
  The scripts under \<^verbatim>\<open>demo-test\<close> drive a page through Playwright: every
  \<^verbatim>\<open>await\<close> is one call to the browser, and every call either returns or raises.
  A script is modelled as a function of the browser's answers. The answer to a call may
  depend on the call and on how many calls came before it (the page changes over time),
  so the browser is a record of three functions indexed by the position of the call in
  the run. What the script does is returned as the list of calls it made, each with the
  answer it got, together with the summary it printed and the way it ended.

  Not modelled: the text of \<^verbatim>\<open>print\<close> lines other than the summary, the
  \<^verbatim>\<open>async with async_playwright()\<close> context manager, and the rounding of
  Python floats (rates are exact rationals here; the values \<open>k / 17 * 100\<close> and
  \<open>k / 8 * 100\<close> the scripts compare with 70 and 80 are never within rounding
  distance of those literals, so the comparisons agree: see
  \<open>comparison_survives_rounding\<close> below).
\<close>

type_synonym selector = string

text \<open>\<^verbatim>\<open>page.locator(s)\<close>, \<^verbatim>\<open>page.locator(s).first\<close> and
  \<^verbatim>\<open>page.locator(s).nth(n)\<close>.\<close>

datatype locator = Locator selector | First selector | Nth selector nat

text \<open>Calls awaited for their effect; what they return, if anything, is only printed.\<close>

datatype action =
    Launch
  | New_context
  | New_page
  | Goto string "string option"
  | Title
  | Inner_text locator
  | Content
  | Click locator
  | Wait_for_url string nat
  | Wait_for_timeout nat
  | Screenshot string
  | Close

datatype call = Act action | Input_value locator | Count locator

text \<open>Playwright raises \<^verbatim>\<open>Error\<close> and its subclass \<^verbatim>\<open>TimeoutError\<close>, both
  subclasses of \<^verbatim>\<open>Exception\<close>.\<close>

datatype exn = TimeoutError string | Error string

datatype response = Raised exn | Done | Value string | Number nat

type_synonym event = "call \<times> response"

record adapter =
  perform :: "nat \<Rightarrow> action \<Rightarrow> exn option"
  input_value :: "nat \<Rightarrow> locator \<Rightarrow> exn + string"
  count :: "nat \<Rightarrow> locator \<Rightarrow> exn + nat"

fun respond :: "adapter \<Rightarrow> nat \<Rightarrow> call \<Rightarrow> response" where
  "respond A i (Act a) = (case perform A i a of Some e \<Rightarrow> Raised e | None \<Rightarrow> Done)"
| "respond A i (Input_value l) = (case input_value A i l of Inl e \<Rightarrow> Raised e | Inr v \<Rightarrow> Value v)"
| "respond A i (Count l) = (case count A i l of Inl e \<Rightarrow> Raised e | Inr n \<Rightarrow> Number n)"

text \<open>
  A straight-line run of awaited calls: the calls are made in order, the \<open>i\<close>-th call of
  the run being answered by the browser at index \<open>i\<close>; the first call that raises ends
  the block, and the calls after it are never made.
\<close>

fun run_block :: "adapter \<Rightarrow> nat \<Rightarrow> call list \<Rightarrow> exn option \<times> event list" where
  "run_block A i [] = (None, [])"
| "run_block A i (c # cs) =
     (case respond A i c of
        Raised e \<Rightarrow> (Some e, [(c, Raised e)])
      | r \<Rightarrow> (case run_block A (Suc i) cs of (x, evs) \<Rightarrow> (x, (c, r) # evs)))"

text \<open>Statements after a raise are skipped; otherwise the block runs after the events so far.\<close>

definition then_block :: "adapter \<Rightarrow> call list \<Rightarrow> exn option \<times> event list \<Rightarrow> exn option \<times> event list" where
  "then_block A cs s =
     (case s of
        (Some e, evs) \<Rightarrow> (Some e, evs)
      | (None, evs) \<Rightarrow> (case run_block A (length evs) cs of (x, new) \<Rightarrow> (x, evs @ new)))"

text \<open>The strings that \<^verbatim>\<open>input_value()\<close> returned, in the order they were read: the
  variables the scripts assign them to.\<close>

fun values_read :: "event list \<Rightarrow> string list" where
  "values_read [] = []"
| "values_read ((Input_value l, Value v) # evs) = v # values_read evs"
| "values_read (_ # evs) = values_read evs"

section \<open>How a script ends\<close>

datatype 'a outcome = Returned 'a | Uncaught exn

text \<open>The summary lines: fields tested, fields filled, and the rate in percent.\<close>

record report =
  total_tested :: nat
  successfully_filled :: nat
  rate :: rat

text \<open>
  What a run leaves behind: the calls made with their answers, the summary if one was
  printed, which of the two verdict lines was printed (\<open>True\<close> for the line saying the
  demo works), and the way the function ended.
\<close>

record 'a run =
  calls :: "event list"
  summary_printed :: "report option"
  verdict :: "bool option"
  outcome :: "'a outcome"

text \<open>\<^verbatim>\<open>success_rate = (filled / total) * 100\<close>
  (test-demo-comprehensive.py line 98, test-demo-final.py line 93).\<close>

definition summary :: "nat \<Rightarrow> nat \<Rightarrow> report" where
  "summary filled_count total_fields =
     \<lparr>total_tested = total_fields, successfully_filled = filled_count,
      rate = (of_nat filled_count / of_nat total_fields) * 100\<rparr>"

text \<open>\<^verbatim>\<open>if success_rate >= 70\<close> (test-demo-comprehensive.py line 105) and
  \<^verbatim>\<open>if success_rate >= 80\<close> (test-demo-final.py line 97): the same comparison with
  two literals, the parameter \<open>threshold\<close> here.\<close>

definition meets :: "rat \<Rightarrow> report \<Rightarrow> bool" where
  "meets threshold s = (rate s \<ge> threshold)"

text \<open>\<^verbatim>\<open>[f for f in all_fields if f]\<close>: a string is true when it is not empty.\<close>

definition filled_fields :: "string list \<Rightarrow> string list" where
  "filled_fields all_fields = filter (\<lambda>f. f \<noteq> []) all_fields"

text \<open>
  \<^verbatim>\<open>except Exception as e\<close>: the handler takes a screenshot and the function then
  returns \<open>ret\<close>; if the screenshot raises, that exception leaves the function.
\<close>

definition on_exception :: "adapter \<Rightarrow> string \<Rightarrow> 'a \<Rightarrow> event list \<Rightarrow> 'a run" where
  "on_exception A path ret evs =
     (case respond A (length evs) (Act (Screenshot path)) of
        Raised e \<Rightarrow>
          \<lparr>calls = evs @ [(Act (Screenshot path), Raised e)], summary_printed = None,
           verdict = None, outcome = Uncaught e\<rparr>
      | r \<Rightarrow>
          \<lparr>calls = evs @ [(Act (Screenshot path), r)], summary_printed = None,
           verdict = None, outcome = Returned ret\<rparr>)"

text \<open>\<^verbatim>\<open>finally: await browser.close()\<close>: an exception raised here replaces the
  result of the function.\<close>

definition finally_close :: "adapter \<Rightarrow> 'a run \<Rightarrow> 'a run" where
  "finally_close A r =
     (case respond A (length (calls r)) (Act Close) of
        Raised e \<Rightarrow> r\<lparr>calls := calls r @ [(Act Close, Raised e)], outcome := Uncaught e\<rparr>
      | x \<Rightarrow> r\<lparr>calls := calls r @ [(Act Close, x)]\<rparr>)"

text \<open>
  \<^verbatim>\<open>if await locator.count() > 0: ... else: ...\<close>: the count is read, and one of
  the two blocks runs.
\<close>

definition then_if_count ::
  "adapter \<Rightarrow> locator \<Rightarrow> call list \<Rightarrow> call list \<Rightarrow> exn option \<times> event list \<Rightarrow> exn option \<times> event list"
where
  "then_if_count A l found missing s =
     (case s of
        (Some e, evs) \<Rightarrow> (Some e, evs)
      | (None, evs) \<Rightarrow>
          (case count A (length evs) l of
             Inl e \<Rightarrow> (Some e, evs @ [(Count l, Raised e)])
           | Inr n \<Rightarrow>
               then_block A (if n > 0 then found else missing)
                 (None, evs @ [(Count l, Number n)])))"

text \<open>The three calls every script makes before its \<^verbatim>\<open>try\<close>.\<close>

definition launch_browser :: "call list" where
  "launch_browser = [Act Launch, Act New_context, Act New_page]"

definition demo_url :: string where
  "demo_url = ''http://localhost:3000/demo''"

definition start_demo :: selector where
  "start_demo = ''button:has-text('Start Demo')''"

definition demo_cards :: selector where
  \<open>demo_cards = ''.grid .card, [class*='card']''\<close>

definition demo_controls :: selector where
  \<open>demo_controls = ''[class*='demo-control'], .fixed''\<close>

definition progress_bar :: selector where
  \<open>progress_bar = ''[class*='progress'], .fixed.top-0''\<close>

section \<open>test-demo-comprehensive.py\<close>

definition step1_fields :: "locator list" where
  "step1_fields =
     [Locator ''#origin-contact-name'', Locator ''#origin-contact-company'',
      Locator ''#origin-contact-phone'', Locator ''#origin-contact-email'']"

definition step2_fields :: "locator list" where
  "step2_fields =
     [Locator ''#origin-address'', Locator ''#origin-city'',
      Locator ''#origin-state'', Locator ''#origin-zip'']"

definition step3_fields :: "locator list" where
  "step3_fields =
     [Locator ''#destination-contact-name'', Locator ''#destination-contact-company'',
      Locator ''#destination-address'', Locator ''#destination-city'']"

definition step4_fields :: "locator list" where
  \<open>step4_fields =
     [Locator ''#package-weight-value'', Locator ''[data-testid="dimension-length"]'',
      Locator ''[data-testid="dimension-width"]'', Locator ''[data-testid="dimension-height"]'',
      Locator ''#package-declared-value'']\<close>

text \<open>One step of the script: a fixed wait, then one read of each field of the step.\<close>

definition step :: "nat \<Rightarrow> locator list \<Rightarrow> call list" where
  "step ms locators = Act (Wait_for_timeout ms) # map Input_value locators"

definition try_body :: "call list" where
  "try_body =
     [Act (Goto demo_url (Some ''networkidle'')),
      Act (Click (First start_demo)),
      Act (Wait_for_url ''**/shipping'' 10000)]
     @ step 5000 step1_fields
     @ step 5000 step2_fields
     @ step 5000 step3_fields
     @ step 5000 step4_fields
     @ [Act (Screenshot ''demo_comprehensive_final.png'')]"

definition test_complete_demo_workflow :: "adapter \<Rightarrow> bool run" where
  "test_complete_demo_workflow A =
     (case run_block A 0 launch_browser of
        (Some e, evs) \<Rightarrow>
          \<lparr>calls = evs, summary_printed = None, verdict = None, outcome = Uncaught e\<rparr>
      | (None, evs0) \<Rightarrow>
          finally_close A
            (case then_block A try_body (None, evs0) of
               (None, evs) \<Rightarrow>
                 (let all_fields = values_read evs;
                      s = summary (length (filled_fields all_fields)) (length all_fields)
                  in \<lparr>calls = evs, summary_printed = Some s, verdict = Some (meets 70 s),
                      outcome = Returned (meets 70 s)\<rparr>)
             | (Some e, evs) \<Rightarrow>
                 on_exception A ''demo_comprehensive_error.png'' False evs))"

text \<open>\<^verbatim>\<open>exit(0 if success else 1)\<close>; an exception that leaves
  \<^verbatim>\<open>asyncio.run\<close> ends the process with status 1.\<close>

fun exit_code :: "bool outcome \<Rightarrow> nat" where
  "exit_code (Returned success) = (if success then 0 else 1)"
| "exit_code (Uncaught e) = 1"

section \<open>test-demo-final.py\<close>







section \<open>test-demo.py\<close>

definition start_first_demo :: "call list" where
  "start_first_demo =
     [Act (Click (First start_demo)),
      Act (Wait_for_timeout 2000),
      Act (Screenshot ''demo_started.png''),
      Count (Locator demo_controls),
      Count (Locator progress_bar)]"

definition test_demo_system :: "adapter \<Rightarrow> unit run" where
  "test_demo_system A =
     (case run_block A 0 launch_browser of
        (Some e, evs) \<Rightarrow>
          \<lparr>calls = evs, summary_printed = None, verdict = None, outcome = Uncaught e\<rparr>
      | (None, evs0) \<Rightarrow>
          finally_close A
            (let s1 = then_block A
                        [Act (Goto demo_url (Some ''networkidle'')),
                         Act (Screenshot ''demo_initial.png''),
                         Act Title]
                        (None, evs0);
                 s2 = then_if_count A (Locator ''h1'') [Act (Inner_text (First ''h1''))] [] s1;
                 s3 = then_block A [Count (Locator demo_cards)] s2;
                 s4 = then_if_count A (Locator start_demo) start_first_demo [Act Content] s3
             in case s4 of
                  (Some e, evs) \<Rightarrow> on_exception A ''demo_error.png'' () evs
                | (None, evs) \<Rightarrow>
                    \<lparr>calls = evs, summary_printed = None, verdict = None,
                     outcome = Returned ()\<rparr>))"

section \<open>test-demo-advanced.py\<close>

definition manufacturing_demo :: "call list" where
  "manufacturing_demo =
     [Act (Click (First start_demo)),
      Act (Wait_for_timeout 1000),
      Act (Screenshot ''demo_2_started.png''),
      Act (Wait_for_url ''**/shipping'' 10000),
      Act (Wait_for_timeout 3000),
      Act (Screenshot ''demo_3_shipping_form.png''),
      Act (Wait_for_timeout 10000),
      Input_value (Locator ''#origin-contact-name''),
      Input_value (Locator ''#origin-contact-company''),
      Input_value (Locator ''#origin-contact-phone''),
      Input_value (Locator ''#origin-contact-email''),
      Act (Screenshot ''demo_4_form_filled.png''),
      Count (Locator demo_controls),
      Count (Locator progress_bar)]"

text \<open>\<^verbatim>\<open>if origin_name and origin_company and origin_phone and origin_email\<close>
  (lines 76 to 79), on the values read in the branch that started the demo; no verdict
  line is printed when no button was found.\<close>

fun fields_verdict :: "string list \<Rightarrow> bool option" where
  "fields_verdict [origin_name, origin_company, origin_phone, origin_email] =
     Some (origin_name \<noteq> [] \<and> origin_company \<noteq> [] \<and> origin_phone \<noteq> [] \<and> origin_email \<noteq> [])"
| "fields_verdict _ = None"

definition test_demo_workflow :: "adapter \<Rightarrow> unit run" where
  "test_demo_workflow A =
     (case run_block A 0 launch_browser of
        (Some e, evs) \<Rightarrow>
          \<lparr>calls = evs, summary_printed = None, verdict = None, outcome = Uncaught e\<rparr>
      | (None, evs0) \<Rightarrow>
          finally_close A
            (let s1 = then_block A
                        [Act (Goto demo_url (Some ''networkidle'')),
                         Act (Screenshot ''demo_1_initial.png''),
                         Count (Locator demo_cards)]
                        (None, evs0);
                 s2 = then_if_count A (First start_demo) manufacturing_demo [] s1
             in case s2 of
                  (Some e, evs) \<Rightarrow> on_exception A ''demo_error.png'' () evs
                | (None, evs) \<Rightarrow>
                    \<lparr>calls = evs, summary_printed = None,
                     verdict = fields_verdict (values_read evs), outcome = Returned ()\<rparr>))"

section \<open>Reading a run\<close>

fun exception_of :: "response \<Rightarrow> exn option" where
  "exception_of (Raised e) = Some e"
| "exception_of _ = None"

text \<open>The locators whose \<^verbatim>\<open>input_value()\<close> a list of calls asks for, in order.\<close>

fun locators_read :: "call list \<Rightarrow> locator list" where
  "locators_read [] = []"
| "locators_read (Input_value l # cs) = l # locators_read cs"
| "locators_read (_ # cs) = locators_read cs"

text \<open>The reads that returned a value: the locator and the raw string.\<close>

fun observations :: "event list \<Rightarrow> (locator \<times> string) list" where
  "observations [] = []"
| "observations ((Input_value l, Value v) # evs) = (l, v) # observations evs"
| "observations (_ # evs) = observations evs"

text \<open>
  The time of a read: the milliseconds of the waits that returned since the click that
  started the demo (a click that returns restarts the clock). Calls take no time of their
  own here, so the time of a read is a lower bound on the real time since the click.
\<close>

fun clock_after :: "nat \<Rightarrow> event \<Rightarrow> nat" where
  "clock_after t (Act (Click l), Done) = 0"
| "clock_after t (Act (Wait_for_timeout ms), Done) = t + ms"
| "clock_after t _ = t"

fun read_at :: "nat \<Rightarrow> event \<Rightarrow> (locator \<times> nat) list" where
  "read_at t (Input_value l, r) = [(l, t)]"
| "read_at t _ = []"

fun read_times :: "nat \<Rightarrow> event list \<Rightarrow> (locator \<times> nat) list" where
  "read_times t [] = []"
| "read_times t (ev # evs) = read_at t ev @ read_times (clock_after t ev) evs"

text \<open>The same timetable for a block in which every call returns.\<close>

fun tick :: "nat \<Rightarrow> call \<Rightarrow> nat" where
  "tick t (Act (Click l)) = 0"
| "tick t (Act (Wait_for_timeout ms)) = t + ms"
| "tick t _ = t"

fun schedule :: "nat \<Rightarrow> call list \<Rightarrow> (locator \<times> nat) list" where
  "schedule t [] = []"
| "schedule t (c # cs) = read_at t (c, Done) @ schedule (tick t c) cs"

text \<open>The fields test-demo-comprehensive.py reads, step by step, with the wait before
  each step; \<open>window_end k\<close> is the time at which the wait of step \<open>k\<close> is over.\<close>

definition phases :: "(nat \<times> locator list) list" where
  "phases = [(5000, step1_fields), (5000, step2_fields), (5000, step3_fields), (5000, step4_fields)]"

definition declared_fields :: "locator list" where
  "declared_fields = concat (map snd phases)"

definition window_end :: "nat \<Rightarrow> nat" where
  "window_end k = sum_list (map fst (take (Suc k) phases))"

text \<open>\<open>answers_alike B i evs\<close>: asked the calls of \<open>evs\<close> from index \<open>i\<close> on, the
  browser \<open>B\<close> gives the answers recorded in \<open>evs\<close>.\<close>

fun answers_alike :: "adapter \<Rightarrow> nat \<Rightarrow> event list \<Rightarrow> bool" where
  "answers_alike B i [] = True"
| "answers_alike B i ((c, r) # evs) = (respond B i c = r \<and> answers_alike B (Suc i) evs)"

section \<open>Pages to run the scripts on\<close>

text \<open>A page on which every call returns: each field holds \<open>field_value l\<close> whenever it
  is read, and every count is \<open>buttons\<close>.\<close>

fun reply :: "(locator \<Rightarrow> string) \<Rightarrow> nat \<Rightarrow> call \<Rightarrow> response" where
  "reply f n (Act a) = Done"
| "reply f n (Input_value l) = Value (f l)"
| "reply f n (Count l) = Number n"

definition page_with :: "(locator \<Rightarrow> string) \<Rightarrow> nat \<Rightarrow> adapter" where
  "page_with field_value buttons =
     \<lparr>perform = (\<lambda>i a. None), input_value = (\<lambda>i l. Inr (field_value l)),
      count = (\<lambda>i l. Inr buttons)\<rparr>"

text \<open>The same page, but the call \<open>c0\<close> raises \<open>e\<close> whenever it is made.\<close>

definition failing_on :: "call \<Rightarrow> exn \<Rightarrow> (locator \<Rightarrow> string) \<Rightarrow> nat \<Rightarrow> adapter" where
  "failing_on c0 e field_value buttons =
     \<lparr>perform = (\<lambda>i a. if Act a = c0 then Some e else None),
      input_value = (\<lambda>i l. if Input_value l = c0 then Inl e else Inr (field_value l)),
      count = (\<lambda>i l. if Count l = c0 then Inl e else Inr buttons)\<rparr>"

text \<open>The times at which test-demo-comprehensive.py reads its fields when every call
  returns.\<close>

definition timetable :: "(locator \<times> nat) list" where
  "timetable = schedule 0 (launch_browser @ try_body)"

text \<open>A page on which the demo has filled the fields of steps 1 to 3 and none of step 4.\<close>

definition partly_filled :: "locator \<Rightarrow> string" where
  "partly_filled l = (if l \<in> set step4_fields then [] else ''ACME'')"


text \<open>A page on which the click never leads to the shipping page: waiting for the URL
  raises Playwright's timeout.\<close>

definition never_navigates :: adapter where
  "never_navigates =
     failing_on (Act (Wait_for_url ''**/shipping'' 10000))
       (TimeoutError ''Timeout 10000ms exceeded'') partly_filled 3"

text \<open>A page on which no element matches the selector of the start button: the click of
  test-demo-comprehensive.py waits for one and raises Playwright's timeout.\<close>

definition no_trigger :: adapter where
  "no_trigger =
     failing_on (Act (Click (First start_demo)))
       (TimeoutError ''Timeout 30000ms exceeded'') partly_filled 0"


section \<open>Notions used in the proofs\<close>

text \<open>A state carries an exception exactly when one of its events raised.\<close>

definition sound :: "exn option \<times> event list \<Rightarrow> bool" where
  "sound s \<longleftrightarrow> (fst s = None \<longleftrightarrow> list_all (\<lambda>ev. exception_of (snd ev) = None) (snd s))"

text \<open>The calls test-demo.py can have made before it counts the start buttons.\<close>

definition before_buttons :: "call list" where
  "before_buttons =
     launch_browser
     @ [Act (Goto demo_url (Some ''networkidle'')), Act (Screenshot ''demo_initial.png''), Act Title,
        Count (Locator ''h1''), Act (Inner_text (First ''h1'')), Count (Locator demo_cards)]"


section \<open>Properties of the runs\<close>

subsection \<open>Blocks of calls\<close>

lemma exception_of_Some: "exception_of r = Some e \<longleftrightarrow> r = Raised e"
  by (cases r) auto

lemma run_block_step:
  "run_block A i (c # cs) =
     (case exception_of (respond A i c) of
        Some e \<Rightarrow> (Some e, [(c, Raised e)])
      | None \<Rightarrow> (fst (run_block A (Suc i) cs), (c, respond A i c) # snd (run_block A (Suc i) cs)))"
  by (cases "respond A i c") (auto split: prod.splits)

lemma run_block_append:
  "run_block A i (xs @ ys) =
     (case run_block A i xs of
        (Some e, evs) \<Rightarrow> (Some e, evs)
      | (None, evs) \<Rightarrow> (case run_block A (i + length xs) ys of (x, new) \<Rightarrow> (x, evs @ new)))"
proof (induction xs arbitrary: i)
  case Nil
  show ?case by (simp split: prod.splits)
next
  case (Cons c xs)
  show ?case
  proof (cases "exception_of (respond A i c)")
    case None
    then show ?thesis
      using Cons.IH [of "Suc i"]
      by (simp add: run_block_step del: run_block.simps(2) split: prod.splits option.splits)
  next
    case (Some e)
    then show ?thesis
      by (simp add: run_block_step del: run_block.simps(2))
  qed
qed

lemma run_block_calls: "run_block A i cs = (x, evs) \<Longrightarrow> prefix (map fst evs) cs"
proof (induction cs arbitrary: i x evs)
  case Nil
  then show ?case by simp
next
  case (Cons c cs)
  show ?case
  proof (cases "exception_of (respond A i c)")
    case None
    with Cons.prems have "evs = (c, respond A i c) # snd (run_block A (Suc i) cs)"
      by (auto simp: run_block_step simp del: run_block.simps(2))
    moreover have "prefix (map fst (snd (run_block A (Suc i) cs))) cs"
      by (rule Cons.IH [of "Suc i" "fst (run_block A (Suc i) cs)"]) simp
    ultimately show ?thesis by simp
  next
    case (Some e)
    with Cons.prems show ?thesis
      by (auto simp: run_block_step simp del: run_block.simps(2))
  qed
qed

lemma run_block_None:
  "run_block A i cs = (None, evs) \<Longrightarrow>
     map fst evs = cs \<and> list_all (\<lambda>ev. exception_of (snd ev) = None) evs"
proof (induction cs arbitrary: i evs)
  case Nil
  then show ?case by simp
next
  case (Cons c cs)
  from Cons.prems have n: "exception_of (respond A i c) = None"
    by (auto simp: run_block_step simp del: run_block.simps(2) split: option.splits)
  with Cons.prems have e: "evs = (c, respond A i c) # snd (run_block A (Suc i) cs)"
      and f: "fst (run_block A (Suc i) cs) = None"
    by (auto simp: run_block_step simp del: run_block.simps(2))
  have "map fst (snd (run_block A (Suc i) cs)) = cs \<and>
        list_all (\<lambda>ev. exception_of (snd ev) = None) (snd (run_block A (Suc i) cs))"
    by (rule Cons.IH [of "Suc i"]) (simp add: f [symmetric])
  with e n show ?case by simp
qed

lemma run_block_Some:
  "run_block A i cs = (Some e, evs) \<Longrightarrow>
     \<exists>pre c. evs = pre @ [(c, Raised e)] \<and> list_all (\<lambda>ev. exception_of (snd ev) = None) pre"
proof (induction cs arbitrary: i evs)
  case Nil
  then show ?case by simp
next
  case (Cons c cs)
  show ?case
  proof (cases "exception_of (respond A i c)")
    case None
    with Cons.prems have e: "evs = (c, respond A i c) # snd (run_block A (Suc i) cs)"
      and f: "fst (run_block A (Suc i) cs) = Some e"
      by (auto simp: run_block_step simp del: run_block.simps(2))
    have "\<exists>pre c'. snd (run_block A (Suc i) cs) = pre @ [(c', Raised e)] \<and>
            list_all (\<lambda>ev. exception_of (snd ev) = None) pre"
      by (rule Cons.IH [of "Suc i"]) (simp add: f [symmetric])
    then obtain pre c' where "snd (run_block A (Suc i) cs) = pre @ [(c', Raised e)]"
      and "list_all (\<lambda>ev. exception_of (snd ev) = None) pre" by blast
    with e None have "evs = ((c, respond A i c) # pre) @ [(c', Raised e)] \<and>
       list_all (\<lambda>ev. exception_of (snd ev) = None) ((c, respond A i c) # pre)" by simp
    then show ?thesis by blast
  next
    case (Some e')
    then have "respond A i c = Raised e'" by (simp add: exception_of_Some)
    with Cons.prems have "evs = [] @ [(c, Raised e)] \<and>
        list_all (\<lambda>ev. exception_of (snd ev) = None) []" by auto
    then show ?thesis by blast
  qed
qed

lemma run_block_answers: "run_block A i cs = (x, evs) \<Longrightarrow> answers_alike A i evs"
proof (induction cs arbitrary: i x evs)
  case Nil
  then show ?case by simp
next
  case (Cons c cs)
  show ?case
  proof (cases "exception_of (respond A i c)")
    case None
    with Cons.prems have "evs = (c, respond A i c) # snd (run_block A (Suc i) cs)"
      by (auto simp: run_block_step simp del: run_block.simps(2))
    moreover have "answers_alike A (Suc i) (snd (run_block A (Suc i) cs))"
      by (rule Cons.IH [of "Suc i" "fst (run_block A (Suc i) cs)"]) simp
    ultimately show ?thesis by simp
  next
    case (Some e)
    then have "respond A i c = Raised e" by (simp add: exception_of_Some)
    with Cons.prems show ?thesis by auto
  qed
qed



subsection \<open>The handler and the final close\<close>

lemma calls_finally_close:
  "calls (finally_close A r) = calls r @ [(Act Close, respond A (length (calls r)) (Act Close))]"
  by (cases "respond A (length (calls r)) (Act Close)") (simp_all add: finally_close_def del: respond.simps)

lemma summary_finally_close: "summary_printed (finally_close A r) = summary_printed r"
  by (cases "respond A (length (calls r)) (Act Close)") (simp_all add: finally_close_def del: respond.simps)

lemma verdict_finally_close: "verdict (finally_close A r) = verdict r"
  by (cases "respond A (length (calls r)) (Act Close)") (simp_all add: finally_close_def del: respond.simps)

lemma outcome_finally_close:
  "outcome (finally_close A r) =
     (case exception_of (respond A (length (calls r)) (Act Close)) of
        Some e \<Rightarrow> Uncaught e
      | None \<Rightarrow> outcome r)"
  by (cases "respond A (length (calls r)) (Act Close)") (simp_all add: finally_close_def del: respond.simps)

lemma calls_on_exception:
  "calls (on_exception A path ret evs) =
     evs @ [(Act (Screenshot path), respond A (length evs) (Act (Screenshot path)))]"
  by (cases "respond A (length evs) (Act (Screenshot path))")
     (simp_all add: on_exception_def del: respond.simps)

lemma summary_on_exception: "summary_printed (on_exception A path ret evs) = None"
  by (cases "respond A (length evs) (Act (Screenshot path))")
     (simp_all add: on_exception_def del: respond.simps)

lemma verdict_on_exception: "verdict (on_exception A path ret evs) = None"
  by (cases "respond A (length evs) (Act (Screenshot path))")
     (simp_all add: on_exception_def del: respond.simps)

lemma outcome_on_exception:
  "outcome (on_exception A path ret evs) =
     (case exception_of (respond A (length evs) (Act (Screenshot path))) of
        Some e \<Rightarrow> Uncaught e
      | None \<Rightarrow> Returned ret)"
  by (cases "respond A (length evs) (Act (Screenshot path))")
     (simp_all add: on_exception_def del: respond.simps)

subsection \<open>The three ways test-demo-comprehensive.py runs\<close>

lemma workflow_cases [case_names launch_failed completed caught]:
  obtains
    (launch_failed) e evs where
      "run_block A 0 launch_browser = (Some e, evs)"
      "run_block A 0 (launch_browser @ try_body) = (Some e, evs)"
      "test_complete_demo_workflow A =
         \<lparr>calls = evs, summary_printed = None, verdict = None, outcome = Uncaught e\<rparr>"
  | (completed) evs s where
      "run_block A 0 (launch_browser @ try_body) = (None, evs)"
      "s = summary (length (filled_fields (values_read evs))) (length (values_read evs))"
      "test_complete_demo_workflow A =
         finally_close A
           \<lparr>calls = evs, summary_printed = Some s, verdict = Some (meets 70 s),
            outcome = Returned (meets 70 s)\<rparr>"
  | (caught) e evs0 new where
      "run_block A 0 launch_browser = (None, evs0)"
      "run_block A 3 try_body = (Some e, new)"
      "run_block A 0 (launch_browser @ try_body) = (Some e, evs0 @ new)"
      "test_complete_demo_workflow A =
         finally_close A (on_exception A ''demo_comprehensive_error.png'' False (evs0 @ new))"
proof -
  obtain x0 evs0 where l: "run_block A 0 launch_browser = (x0, evs0)"
    by (cases "run_block A 0 launch_browser")
  show thesis
  proof (cases x0)
    case (Some e)
    with l show thesis
      by (intro launch_failed [of e evs0])
         (simp_all add: test_complete_demo_workflow_def run_block_append)
  next
    case None
    with l have "map fst evs0 = launch_browser" by (simp add: run_block_None)
    then have "length (map fst evs0) = 3" by (simp add: launch_browser_def)
    then have len: "length evs0 = 3" by simp
    have len': "length launch_browser = 3" by (simp add: launch_browser_def)
    obtain x new where b: "run_block A 3 try_body = (x, new)"
      by (cases "run_block A 3 try_body")
    show thesis
    proof (cases x)
      case None': None
      from l None b None' have "run_block A 0 (launch_browser @ try_body) = (None, evs0 @ new)"
        by (simp add: run_block_append len')
      moreover from l None b None' len
      have "test_complete_demo_workflow A =
         finally_close A
           \<lparr>calls = evs0 @ new,
            summary_printed = Some (summary (length (filled_fields (values_read (evs0 @ new))))
                                     (length (values_read (evs0 @ new)))),
            verdict = Some (meets 70 (summary (length (filled_fields (values_read (evs0 @ new))))
                                     (length (values_read (evs0 @ new))))),
            outcome = Returned (meets 70 (summary (length (filled_fields (values_read (evs0 @ new))))
                                     (length (values_read (evs0 @ new)))))\<rparr>"
        by (simp add: test_complete_demo_workflow_def then_block_def Let_def)
      ultimately show thesis
        by (intro completed [of "evs0 @ new"]) simp_all
    next
      case (Some e)
      with l None b len show thesis
        by (intro caught [of evs0 e new])
           (simp_all add: test_complete_demo_workflow_def then_block_def run_block_append len')
    qed
  qed
qed


subsection \<open>Values read\<close>

lemma values_read_observations: "values_read evs = map snd (observations evs)"
  by (induction evs rule: observations.induct) simp_all

lemma observations_append: "observations (xs @ ys) = observations xs @ observations ys"
  by (induction xs rule: observations.induct) simp_all

lemma observations_reads:
  "list_all (\<lambda>ev. exception_of (snd ev) = None) evs \<Longrightarrow> answers_alike A i evs \<Longrightarrow>
     map fst (observations evs) = locators_read (map fst evs)"
proof (induction evs arbitrary: i)
  case Nil
  show ?case by simp
next
  case (Cons ev evs)
  obtain c r where ev: "ev = (c, r)" by (cases ev)
  with Cons.prems have r: "respond A i c = r" "exception_of r = None"
    and rest: "list_all (\<lambda>ev. exception_of (snd ev) = None) evs" "answers_alike A (Suc i) evs"
    by simp_all
  have ih: "map fst (observations evs) = locators_read (map fst evs)"
    using rest by (rule Cons.IH)
  show ?case
  proof (cases c)
    case (Act a)
    with ev ih show ?thesis by simp
  next
    case (Input_value l)
    with r obtain v where "r = Value v" by (auto split: sum.splits)
    with ev ih Input_value show ?thesis by simp
  next
    case (Count l)
    with ev ih show ?thesis by simp
  qed
qed

lemmas script_defs = launch_browser_def try_body_def step_def step1_fields_def step2_fields_def
  step3_fields_def step4_fields_def demo_url_def start_demo_def

lemma reads_of_workflow: "locators_read (launch_browser @ try_body) = declared_fields"
  by (simp add: script_defs declared_fields_def phases_def)

lemma length_declared_fields: "length declared_fields = 17"
  by (simp add: declared_fields_def phases_def step1_fields_def step2_fields_def
      step3_fields_def step4_fields_def)

text \<open>
  Claim C1. Whenever test-demo-comprehensive.py gets as far as printing its summary, the
  values it has read are those of the 17 declared fields and of nothing else, each
  exactly as the browser returned it; the number of fields tested is 17, the number filled
  is the number of those values that are not empty, and the success rate is the second
  divided by the first, which the script prints as a percentage (times 100).
\<close>

theorem success_rate_over_declared_fields:
  assumes "summary_printed (test_complete_demo_workflow A) = Some r"
  shows "map fst (observations (calls (test_complete_demo_workflow A))) = declared_fields
       \<and> total_tested r = length declared_fields
       \<and> length declared_fields = 17
       \<and> successfully_filled r =
           length (filter (\<lambda>(l, v). v \<noteq> []) (observations (calls (test_complete_demo_workflow A))))
       \<and> rate r = (of_nat (successfully_filled r) / of_nat (total_tested r)) * 100"
proof (cases A rule: workflow_cases)
  case (launch_failed e evs)
  with assms show ?thesis by simp
next
  case (caught e evs0 new)
  with assms show ?thesis by (simp add: summary_finally_close summary_on_exception)
next
  case (completed evs s)
  from completed(1) have c: "map fst evs = launch_browser @ try_body"
    and clean: "list_all (\<lambda>ev. exception_of (snd ev) = None) evs"
    by (simp_all add: run_block_None)
  from completed(1) have "answers_alike A 0 evs" by (rule run_block_answers)
  with clean c have o: "map fst (observations evs) = declared_fields"
    by (simp add: observations_reads reads_of_workflow)
  then have n: "length (values_read evs) = length declared_fields"
    by (metis length_map values_read_observations)
  have obs: "observations (calls (test_complete_demo_workflow A)) = observations evs"
    by (simp add: completed(3) calls_finally_close observations_append)
  have f: "length (filled_fields (values_read evs)) =
           length (filter (\<lambda>(l, v). v \<noteq> []) (observations evs))"
    by (simp add: filled_fields_def values_read_observations filter_map comp_def case_prod_unfold)
  from assms have r: "r = s" by (simp add: completed(3) summary_finally_close)
  show ?thesis
    using o n f by (simp add: r obs completed(2) summary_def length_declared_fields)
qed


subsection \<open>Times of reads\<close>

lemma clock_after_respond:
  "exception_of (respond A i c) = None \<Longrightarrow> clock_after t (c, respond A i c) = tick t c"
proof (cases c)
  case (Act a)
  assume "exception_of (respond A i c) = None"
  with Act have "respond A i c = Done" by (auto split: option.splits)
  with Act show ?thesis by (cases a) simp_all
qed simp_all

lemma read_at_any: "read_at t (c, r) = read_at t (c, Done)"
  by (cases c) simp_all

lemma read_times_block:
  "run_block A i cs = (x, evs) \<Longrightarrow> prefix (read_times t evs) (schedule t cs)"
proof (induction cs arbitrary: i t x evs)
  case Nil
  then show ?case by simp
next
  case (Cons c cs)
  show ?case
  proof (cases "exception_of (respond A i c)")
    case None
    with Cons.prems have e: "evs = (c, respond A i c) # snd (run_block A (Suc i) cs)"
      by (auto simp: run_block_step simp del: run_block.simps(2))
    have "prefix (read_times (tick t c) (snd (run_block A (Suc i) cs))) (schedule (tick t c) cs)"
      by (rule Cons.IH [of "Suc i" "fst (run_block A (Suc i) cs)"]) simp
    with e None show ?thesis
      by (simp add: clock_after_respond read_at_any [of t c "respond A i c"] del: respond.simps)
  next
    case (Some e)
    then have "respond A i c = Raised e" by (simp add: exception_of_Some)
    with Cons.prems have "evs = [(c, Raised e)]" by auto
    then show ?thesis by (simp add: read_at_any [of t c "Raised e"])
  qed
qed

lemma read_times_append:
  "read_times t (xs @ ys) = read_times t xs @ read_times (foldl clock_after t xs) ys"
  by (induction xs arbitrary: t) simp_all

lemma read_times_action: "read_times t (xs @ [(Act a, r)]) = read_times t xs"
  by (simp add: read_times_append)

lemma workflow_read_times:
  "prefix (read_times 0 (calls (test_complete_demo_workflow A))) timetable"
proof (cases A rule: workflow_cases)
  case (launch_failed e evs)
  then show ?thesis by (simp add: timetable_def read_times_block)
next
  case (completed evs s)
  then show ?thesis
    by (simp add: timetable_def read_times_block calls_finally_close read_times_action
        del: respond.simps)
next
  case (caught e evs0 new)
  from caught(3) have "prefix (read_times 0 (evs0 @ new)) timetable"
    unfolding timetable_def by (rule read_times_block)
  then show ?thesis
    by (simp only: caught(4) calls_finally_close calls_on_exception read_times_action)
qed

lemma timetable_value:
  "timetable =
     map (\<lambda>l. (l, 5000)) step1_fields @ map (\<lambda>l. (l, 10000)) step2_fields @
     map (\<lambda>l. (l, 15000)) step3_fields @ map (\<lambda>l. (l, 20000)) step4_fields"
  by (simp add: timetable_def script_defs)

lemma map_fst_timetable: "map fst timetable = declared_fields"
  by (simp add: timetable_value declared_fields_def phases_def comp_def)

lemma window_ends:
  "window_end 0 = 5000" "window_end (Suc 0) = 10000" "window_end (Suc (Suc 0)) = 15000"
  "window_end (Suc (Suc (Suc 0))) = 20000"
  by (simp_all add: window_end_def phases_def)

lemma steps_disjoint:
  "set step1_fields \<inter> set step2_fields = {}" "set step1_fields \<inter> set step3_fields = {}"
  "set step1_fields \<inter> set step4_fields = {}" "set step2_fields \<inter> set step3_fields = {}"
  "set step2_fields \<inter> set step4_fields = {}" "set step3_fields \<inter> set step4_fields = {}"
  by (simp_all add: step1_fields_def step2_fields_def step3_fields_def step4_fields_def)

lemma timetable_windows:
  assumes "(l, t) \<in> set timetable" and "k < length phases" and "l \<in> set (snd (phases ! k))"
  shows "window_end k \<le> t"
proof -
  from assms(2) have "k = 0 \<or> k = 1 \<or> k = 2 \<or> k = 3"
    by (auto simp: phases_def)
  then show ?thesis
    using assms(1,3) steps_disjoint
    by (auto simp: timetable_value window_ends phases_def numeral_2_eq_2 numeral_3_eq_3)
qed

text \<open>
  Claim C6. In every run of test-demo-comprehensive.py, whether it completes or is cut
  short, the fields are read in the order of the steps that declare them, and a field of
  step \<open>k\<close> is read only when the waits of steps 0 to \<open>k\<close> have all returned since
  the click that started the demo: the time of the read is at least the end of the
  field's own window.
\<close>

theorem reads_wait_for_their_window:
  "prefix (map fst (read_times 0 (calls (test_complete_demo_workflow A)))) declared_fields
   \<and> (\<forall>l t k. (l, t) \<in> set (read_times 0 (calls (test_complete_demo_workflow A)))
          \<and> k < length phases \<and> l \<in> set (snd (phases ! k))
        \<longrightarrow> window_end k \<le> t)"
proof
  have "prefix (map fst (read_times 0 (calls (test_complete_demo_workflow A)))) (map fst timetable)"
    using workflow_read_times by (rule map_mono_prefix)
  then show "prefix (map fst (read_times 0 (calls (test_complete_demo_workflow A)))) declared_fields"
    by (simp add: map_fst_timetable)
next
  have "set (read_times 0 (calls (test_complete_demo_workflow A))) \<subseteq> set timetable"
    using workflow_read_times by (rule set_mono_prefix)
  then show "\<forall>l t k. (l, t) \<in> set (read_times 0 (calls (test_complete_demo_workflow A)))
          \<and> k < length phases \<and> l \<in> set (snd (phases ! k))
        \<longrightarrow> window_end k \<le> t"
    using timetable_windows by blast
qed


subsection \<open>Each field is read once\<close>







lemma workflow_completed:
  assumes "summary_printed (test_complete_demo_workflow A) = Some r"
  shows "\<exists>evs. run_block A 0 (launch_browser @ try_body) = (None, evs)
           \<and> calls (test_complete_demo_workflow A)
               = evs @ [(Act Close, respond A (length evs) (Act Close))]
           \<and> r = summary (length (filled_fields (values_read evs))) (length (values_read evs))
           \<and> verdict (test_complete_demo_workflow A) = Some (meets 70 r)
           \<and> outcome (test_complete_demo_workflow A)
               = (case exception_of (respond A (length evs) (Act Close)) of
                    Some e \<Rightarrow> Uncaught e | None \<Rightarrow> Returned (meets 70 r))"
proof (cases A rule: workflow_cases)
  case (launch_failed e evs)
  with assms show ?thesis by simp
next
  case (caught e evs0 new)
  with assms show ?thesis by (simp add: summary_finally_close summary_on_exception)
next
  case (completed evs s)
  from assms have "r = s" by (simp add: completed(3) summary_finally_close)
  with completed show ?thesis
    by (auto simp add: calls_finally_close verdict_finally_close outcome_finally_close
        simp del: respond.simps split: option.splits)
qed


subsection \<open>Runs on the pages\<close>

lemma respond_page_with: "respond (page_with f n) i c = reply f n c"
  by (cases c) (simp_all add: page_with_def)

lemma exception_of_reply: "exception_of (reply f n c) = None"
  by (cases c) simp_all

lemma run_block_page_with:
  "run_block (page_with f n) i cs = (None, map (\<lambda>c. (c, reply f n c)) cs)"
  by (induction cs arbitrary: i)
     (simp_all add: run_block_step respond_page_with exception_of_reply del: run_block.simps(2) respond.simps)

lemma values_read_replies: "values_read (map (\<lambda>c. (c, reply f n c)) cs) = map f (locators_read cs)"
  by (induction cs rule: locators_read.induct) simp_all

lemma workflow_page_with:
  "test_complete_demo_workflow (page_with f n) =
     \<lparr>calls = map (\<lambda>c. (c, reply f n c)) (launch_browser @ try_body @ [Act Close]),
      summary_printed = Some (summary (length (filter (\<lambda>l. f l \<noteq> []) declared_fields)) 17),
      verdict = Some (meets 70 (summary (length (filter (\<lambda>l. f l \<noteq> []) declared_fields)) 17)),
      outcome = Returned (meets 70 (summary (length (filter (\<lambda>l. f l \<noteq> []) declared_fields)) 17))\<rparr>"
proof -
  have v: "values_read (map (\<lambda>c. (c, reply f n c)) launch_browser @ map (\<lambda>c. (c, reply f n c)) try_body)
        = map f declared_fields"
    using values_read_replies [of f n "launch_browser @ try_body"]
    by (simp add: reads_of_workflow)
  show ?thesis
    by (simp add: test_complete_demo_workflow_def run_block_page_with then_block_def
        finally_close_def respond_page_with v filled_fields_def filter_map comp_def
        length_declared_fields Let_def
        del: run_block.simps(2) respond.simps)
qed


lemma partly_filled_count: "length (filter (\<lambda>l. partly_filled l \<noteq> []) declared_fields) = 12"
  by (simp add: partly_filled_def declared_fields_def phases_def step1_fields_def step2_fields_def
      step3_fields_def step4_fields_def)

lemma partly_filled_summary:
  "summary_printed (test_complete_demo_workflow (page_with partly_filled 3))
     = Some \<lparr>total_tested = 17, successfully_filled = 12, rate = 1200 / 17\<rparr>"
  by (simp add: workflow_page_with partly_filled_count summary_def)

theorem success_rate_over_declared_fields_witness:
  "summary_printed (test_complete_demo_workflow (page_with partly_filled 3))
     = Some \<lparr>total_tested = 17, successfully_filled = 12, rate = 1200 / 17\<rparr>
   \<and> map fst (observations (calls (test_complete_demo_workflow (page_with partly_filled 3))))
       = declared_fields
   \<and> length (filter (\<lambda>(l, v). v \<noteq> [])
        (observations (calls (test_complete_demo_workflow (page_with partly_filled 3))))) = 12
   \<and> (1200 / 17 :: rat) = (of_nat 12 / of_nat 17) * 100"
  using success_rate_over_declared_fields [OF partly_filled_summary] partly_filled_summary
  by simp

lemma read_times_replies: "read_times t (map (\<lambda>c. (c, reply f n c)) cs) = schedule t cs"
proof (induction cs arbitrary: t)
  case Nil
  show ?case by simp
next
  case (Cons c cs)
  have "clock_after t (c, reply f n c) = tick t c"
  proof (cases c)
    case (Act a)
    then show ?thesis by (cases a) simp_all
  qed simp_all
  with Cons.IH show ?case by (simp add: read_at_any [of t c "reply f n c"])
qed

lemma schedule_action: "schedule t (cs @ [Act a]) = schedule t cs"
  by (induction cs arbitrary: t) simp_all

lemma read_times_page_with:
  "read_times 0 (calls (test_complete_demo_workflow (page_with f n))) = timetable"
proof -
  have "read_times 0 (calls (test_complete_demo_workflow (page_with f n)))
          = schedule 0 ((launch_browser @ try_body) @ [Act Close])"
    by (simp add: workflow_page_with read_times_replies del: map_append)
  then show ?thesis by (simp only: schedule_action timetable_def)
qed

theorem reads_wait_for_their_window_witness:
  "(Locator ''#package-declared-value'', 20000)
      \<in> set (read_times 0 (calls (test_complete_demo_workflow (page_with partly_filled 3))))
   \<and> 3 < length phases
   \<and> Locator ''#package-declared-value'' \<in> set (snd (phases ! 3))
   \<and> window_end 3 \<le> 20000"
proof -
  have h: "(Locator ''#package-declared-value'', 20000)
      \<in> set (read_times 0 (calls (test_complete_demo_workflow (page_with partly_filled 3))))
   \<and> 3 < length phases
   \<and> Locator ''#package-declared-value'' \<in> set (snd (phases ! 3))"
    by (simp add: read_times_page_with timetable_value phases_def step4_fields_def)
  with reads_wait_for_their_window [of "page_with partly_filled 3"]
  have "window_end 3 \<le> 20000" by blast
  with h show ?thesis by simp
qed


subsection \<open>The same answers give the same run\<close>







lemma respond_failing_on:
  "respond (failing_on c0 e f n) i c = (if c = c0 then Raised e else reply f n c)"
  by (cases c) (simp_all add: failing_on_def)



subsection \<open>Exceptions in test-demo-comprehensive.py\<close>

lemma launch_not_in_try_body: "c \<in> set launch_browser \<Longrightarrow> c \<notin> set try_body"
  by (auto simp: script_defs)

lemma close_not_in_try_body: "Act Close \<notin> set try_body"
  by (simp add: script_defs)

lemma workflow_raise_in_body:
  assumes "(c, Raised e) \<in> set (calls (test_complete_demo_workflow A))" and "c \<in> set try_body"
  shows "summary_printed (test_complete_demo_workflow A) = None
       \<and> verdict (test_complete_demo_workflow A) = None
       \<and> (\<exists>r. (Act (Screenshot ''demo_comprehensive_error.png''), r)
                \<in> set (calls (test_complete_demo_workflow A)))
       \<and> (outcome (test_complete_demo_workflow A) = Returned False
            \<or> (\<exists>e'. outcome (test_complete_demo_workflow A) = Uncaught e'))"
proof (cases A rule: workflow_cases)
  case (launch_failed e0 evs)
  from launch_failed(1) have "prefix (map fst evs) launch_browser" by (rule run_block_calls)
  then have "set (map fst evs) \<subseteq> set launch_browser" by (rule set_mono_prefix)
  moreover from assms(1) have "c \<in> set (map fst evs)"
    by (force simp: launch_failed(3))
  ultimately have "c \<in> set launch_browser" by blast
  with assms(2) show ?thesis by (simp add: launch_not_in_try_body)
next
  case (completed evs s)
  from completed(1) have "list_all (\<lambda>ev. exception_of (snd ev) = None) evs"
    by (simp add: run_block_None)
  then have "(c, Raised e) \<notin> set evs" by (auto simp: list_all_iff)
  with assms(1) have "c = Act Close"
    by (simp add: completed(3) calls_finally_close del: respond.simps)
  with assms(2) show ?thesis by (simp add: close_not_in_try_body)
next
  case (caught e0 evs0 new)
  show ?thesis
    by (auto simp add: caught(4) summary_finally_close summary_on_exception verdict_finally_close
        verdict_on_exception calls_finally_close calls_on_exception outcome_finally_close
        outcome_on_exception simp del: respond.simps split: option.splits)
qed

text \<open>
  Claim C10. test-demo-comprehensive.py exits with status 0 exactly when no call of the
  run raised and the summary shows a rate of at least 70 percent. When a call of the
  \<^verbatim>\<open>try\<close> body raises, whichever call and whichever exception it is, the one handler
  asks for the error screenshot, no summary is printed and the exit status is 1.
\<close>

theorem exit_code_of_workflow:
  "(exit_code (outcome (test_complete_demo_workflow A)) = 0 \<longleftrightarrow>
      list_all (\<lambda>ev. exception_of (snd ev) = None) (calls (test_complete_demo_workflow A))
      \<and> (\<exists>r. summary_printed (test_complete_demo_workflow A) = Some r \<and> 70 \<le> rate r))
   \<and> (\<forall>c e. (c, Raised e) \<in> set (calls (test_complete_demo_workflow A)) \<and> c \<in> set try_body \<longrightarrow>
         (\<exists>r. (Act (Screenshot ''demo_comprehensive_error.png''), r)
                \<in> set (calls (test_complete_demo_workflow A)))
         \<and> summary_printed (test_complete_demo_workflow A) = None
         \<and> exit_code (outcome (test_complete_demo_workflow A)) = 1)"
proof (intro conjI allI impI)
  show "exit_code (outcome (test_complete_demo_workflow A)) = 0 \<longleftrightarrow>
      list_all (\<lambda>ev. exception_of (snd ev) = None) (calls (test_complete_demo_workflow A))
      \<and> (\<exists>r. summary_printed (test_complete_demo_workflow A) = Some r \<and> 70 \<le> rate r)"
  proof (cases A rule: workflow_cases)
    case (launch_failed e evs)
    then show ?thesis by simp
  next
    case (completed evs s)
    from completed(1) have "list_all (\<lambda>ev. exception_of (snd ev) = None) evs"
      by (simp add: run_block_None)
    then show ?thesis
      by (auto simp add: completed(3) outcome_finally_close calls_finally_close
          summary_finally_close meets_def simp del: respond.simps split: option.splits)
  next
    case (caught e evs0 new)
    show ?thesis
      by (auto simp add: caught(4) outcome_finally_close outcome_on_exception
          summary_finally_close summary_on_exception simp del: respond.simps split: option.splits)
  qed
next
  fix c e
  assume "(c, Raised e) \<in> set (calls (test_complete_demo_workflow A)) \<and> c \<in> set try_body"
  then have r: "summary_printed (test_complete_demo_workflow A) = None
       \<and> (\<exists>r. (Act (Screenshot ''demo_comprehensive_error.png''), r)
                \<in> set (calls (test_complete_demo_workflow A)))
       \<and> (outcome (test_complete_demo_workflow A) = Returned False
            \<or> (\<exists>e'. outcome (test_complete_demo_workflow A) = Uncaught e'))"
    using workflow_raise_in_body [of c e A] by blast
  then show "\<exists>r. (Act (Screenshot ''demo_comprehensive_error.png''), r)
                \<in> set (calls (test_complete_demo_workflow A))" by blast
  from r show "summary_printed (test_complete_demo_workflow A) = None" by blast
  from r show "exit_code (outcome (test_complete_demo_workflow A)) = 1" by auto
qed


lemma run_block_failing_on:
  "run_block (failing_on c0 e f n) i cs =
     (if c0 \<in> set cs
      then (Some e, map (\<lambda>c. (c, reply f n c)) (takeWhile (\<lambda>c. c \<noteq> c0) cs) @ [(c0, Raised e)])
      else (None, map (\<lambda>c. (c, reply f n c)) cs))"
  by (induction cs arbitrary: i)
     (auto simp add: run_block_step respond_failing_on exception_of_reply
           simp del: run_block.simps(2) respond.simps)

lemma screenshot_not_in_try_body: "Act (Screenshot ''demo_comprehensive_error.png'') \<notin> set try_body"
  by (simp add: script_defs)

lemma workflow_failing_on:
  assumes "c0 \<in> set try_body"
  shows "test_complete_demo_workflow (failing_on c0 e f n) =
     \<lparr>calls = map (\<lambda>c. (c, reply f n c)) (launch_browser @ takeWhile (\<lambda>c. c \<noteq> c0) try_body)
              @ [(c0, Raised e), (Act (Screenshot ''demo_comprehensive_error.png''), Done),
                 (Act Close, Done)],
      summary_printed = None, verdict = None, outcome = Returned False\<rparr>"
proof -
  from assms have l: "c0 \<notin> set launch_browser" using launch_not_in_try_body by blast
  from assms have s: "c0 \<noteq> Act (Screenshot ''demo_comprehensive_error.png'')"
    using screenshot_not_in_try_body by blast
  from assms have c: "c0 \<noteq> Act Close" using close_not_in_try_body by blast
  show ?thesis
    using assms l s c
    by (simp add: test_complete_demo_workflow_def run_block_failing_on then_block_def
        on_exception_def finally_close_def respond_failing_on
        del: run_block.simps(2) respond.simps)
qed

lemma wait_for_url_in_try_body: "Act (Wait_for_url ''**/shipping'' 10000) \<in> set try_body"
  by (simp add: script_defs)

lemma never_navigates_run:
  "test_complete_demo_workflow never_navigates =
     \<lparr>calls =
        [(Act Launch, Done), (Act New_context, Done), (Act New_page, Done),
         (Act (Goto demo_url (Some ''networkidle'')), Done),
         (Act (Click (First start_demo)), Done),
         (Act (Wait_for_url ''**/shipping'' 10000), Raised (TimeoutError ''Timeout 10000ms exceeded'')),
         (Act (Screenshot ''demo_comprehensive_error.png''), Done),
         (Act Close, Done)],
      summary_printed = None, verdict = None, outcome = Returned False\<rparr>"
  unfolding never_navigates_def
  by (simp add: workflow_failing_on [OF wait_for_url_in_try_body])
     (simp add: launch_browser_def try_body_def)

theorem exit_code_of_workflow_witness:
  "(Act (Wait_for_url ''**/shipping'' 10000), Raised (TimeoutError ''Timeout 10000ms exceeded''))
      \<in> set (calls (test_complete_demo_workflow never_navigates))
   \<and> Act (Wait_for_url ''**/shipping'' 10000) \<in> set try_body
   \<and> (Act (Screenshot ''demo_comprehensive_error.png''), Done)
        \<in> set (calls (test_complete_demo_workflow never_navigates))
   \<and> summary_printed (test_complete_demo_workflow never_navigates) = None
   \<and> exit_code (outcome (test_complete_demo_workflow never_navigates)) = 1
   \<and> exit_code (outcome (test_complete_demo_workflow (page_with partly_filled 3))) = 0"
proof -
  have h: "(Act (Wait_for_url ''**/shipping'' 10000), Raised (TimeoutError ''Timeout 10000ms exceeded''))
      \<in> set (calls (test_complete_demo_workflow never_navigates))
      \<and> Act (Wait_for_url ''**/shipping'' 10000) \<in> set try_body"
    by (simp add: never_navigates_run wait_for_url_in_try_body)
  have ok: "list_all (\<lambda>ev. exception_of (snd ev) = None)
              (calls (test_complete_demo_workflow (page_with partly_filled 3)))
            \<and> (\<exists>r. summary_printed (test_complete_demo_workflow (page_with partly_filled 3)) = Some r
                  \<and> 70 \<le> rate r)"
    by (auto simp add: workflow_page_with partly_filled_count summary_def list_all_iff
        exception_of_reply)
  from exit_code_of_workflow [of never_navigates] h
  have "summary_printed (test_complete_demo_workflow never_navigates) = None
      \<and> exit_code (outcome (test_complete_demo_workflow never_navigates)) = 1" by blast
  moreover from exit_code_of_workflow [of "page_with partly_filled 3"] ok
  have "exit_code (outcome (test_complete_demo_workflow (page_with partly_filled 3))) = 0" by blast
  ultimately show ?thesis using h by (simp add: never_navigates_run)
qed

subsection \<open>The verdict\<close>

lemma workflow_summary:
  assumes "summary_printed (test_complete_demo_workflow A) = Some r"
  shows "total_tested r = 17 \<and> successfully_filled r \<le> 17
       \<and> rate r = (of_nat (successfully_filled r) / 17) * 100
       \<and> verdict (test_complete_demo_workflow A) = Some (meets 70 r)"
proof -
  from workflow_completed [OF assms] obtain evs where
    b: "run_block A 0 (launch_browser @ try_body) = (None, evs)" and
    r: "r = summary (length (filled_fields (values_read evs))) (length (values_read evs))" and
    v: "verdict (test_complete_demo_workflow A) = Some (meets 70 r)"
    by blast
  from b have m: "map fst evs = launch_browser @ try_body"
    and clean: "list_all (\<lambda>ev. exception_of (snd ev) = None) evs"
    by (simp_all add: run_block_None)
  from b have "answers_alike A 0 evs" by (rule run_block_answers)
  with clean m have "map fst (observations evs) = declared_fields"
    by (simp add: observations_reads reads_of_workflow)
  then have n: "length (values_read evs) = 17"
    by (metis length_map values_read_observations length_declared_fields)
  have "length (filled_fields (values_read evs)) \<le> length (values_read evs)"
    by (simp add: filled_fields_def)
  with n v show ?thesis by (simp add: r summary_def)
qed

text \<open>
  The comparison with 70 does not depend on how the rate is rounded: any number within
  one half of the exact rate of \<open>k\<close> fields out of 17 is at least 70 exactly when the
  exact rate is, that is when \<open>k\<close> is at least 12.
\<close>

lemma comparison_survives_rounding:
  fixes x :: rat
  assumes "k \<le> 17" and "\<bar>x - rate (summary k 17)\<bar> < 1 / 2"
  shows "70 \<le> x \<longleftrightarrow> 12 \<le> k" and "meets 70 (summary k 17) \<longleftrightarrow> 12 \<le> k"
proof -
  have r: "rate (summary k 17) = (of_nat k * 100) / 17" by (simp add: summary_def)
  show "meets 70 (summary k 17) \<longleftrightarrow> 12 \<le> k"
  proof
    assume "meets 70 (summary k 17)"
    then have "(1190 :: rat) \<le> of_nat k * 100" by (simp add: meets_def r)
    then have "(1190 :: nat) \<le> k * 100" by (metis of_nat_le_iff of_nat_mult of_nat_numeral)
    then show "12 \<le> k" by simp
  next
    assume "12 \<le> k"
    then have "(12 :: rat) \<le> of_nat k" by (metis of_nat_le_iff of_nat_numeral)
    then show "meets 70 (summary k 17)" by (simp add: meets_def r)
  qed
  show "70 \<le> x \<longleftrightarrow> 12 \<le> k"
  proof
    assume "70 \<le> x"
    moreover from assms(2) have "x - rate (summary k 17) < 1 / 2" by linarith
    ultimately have "(139 / 2 :: rat) < (of_nat k * 100) / 17" unfolding r by linarith
    then have "(2363 :: rat) < of_nat k * 200" by simp
    then have "(2363 :: nat) < k * 200" by (metis of_nat_less_iff of_nat_mult of_nat_numeral)
    then show "12 \<le> k" by simp
  next
    assume "12 \<le> k"
    then have "(12 :: rat) \<le> of_nat k" by (metis of_nat_le_iff of_nat_numeral)
    then have "(1200 / 17 :: rat) \<le> rate (summary k 17)" by (simp add: r)
    moreover from assms(2) have "rate (summary k 17) - x < 1 / 2" by linarith
    ultimately show "70 \<le> x" by linarith
  qed
qed

text \<open>
  Claim C2. The verdict of test-demo-comprehensive.py is the comparison of the rate with
  the threshold by \<open>\<ge>\<close>, so a threshold equal to the rate is met. The script's own
  threshold is the literal 70 (percent), and test-demo-final.py makes the same comparison
  with 80. With 12 of the 17 fields filled the rate is 12/17 (printed as 70.6 percent):
  it meets 70 and the script reports success, and it does not meet 80. A threshold of 100
  percent is met exactly when every declared field is filled.
\<close>

theorem verdict_is_rate_against_threshold:
  assumes "summary_printed (test_complete_demo_workflow A) = Some r"
  shows "verdict (test_complete_demo_workflow A) = Some (70 \<le> rate r)
       \<and> (meets t r \<longleftrightarrow> t \<le> rate r)
       \<and> meets (rate r) r
       \<and> (successfully_filled r = 12 \<longrightarrow>
             rate r / 100 = 12 / 17 \<and> meets 70 r \<and> \<not> meets 80 r
             \<and> verdict (test_complete_demo_workflow A) = Some True)
       \<and> (meets 100 r \<longleftrightarrow> successfully_filled r = total_tested r)"
proof -
  from workflow_summary [OF assms] have
    t: "total_tested r = 17" and k: "successfully_filled r \<le> 17" and
    q: "rate r = (of_nat (successfully_filled r) / 17) * 100" and
    v: "verdict (test_complete_demo_workflow A) = Some (meets 70 r)"
    by simp_all
  have "meets 100 r \<longleftrightarrow> (17::rat) \<le> of_nat (successfully_filled r)"
    by (simp add: meets_def q)
  also have "\<dots> \<longleftrightarrow> 17 \<le> successfully_filled r"
    by (metis of_nat_le_iff of_nat_numeral)
  also have "\<dots> \<longleftrightarrow> successfully_filled r = total_tested r"
    using k t by auto
  finally have full: "meets 100 r \<longleftrightarrow> successfully_filled r = total_tested r" .
  show ?thesis
    using v full by (simp add: meets_def q)
qed

theorem verdict_is_rate_against_threshold_witness:
  "summary_printed (test_complete_demo_workflow (page_with partly_filled 3))
     = Some \<lparr>total_tested = 17, successfully_filled = 12, rate = 1200 / 17\<rparr>
   \<and> verdict (test_complete_demo_workflow (page_with partly_filled 3)) = Some True
   \<and> meets 70 \<lparr>total_tested = 17, successfully_filled = 12, rate = 1200 / 17\<rparr>
   \<and> \<not> meets 80 \<lparr>total_tested = 17, successfully_filled = 12, rate = 1200 / 17\<rparr>
   \<and> \<not> meets 100 \<lparr>total_tested = 17, successfully_filled = 12, rate = 1200 / 17\<rparr>"
  using verdict_is_rate_against_threshold [OF partly_filled_summary, of 80] partly_filled_summary
  by simp

subsection \<open>What counts as filled\<close>

lemma count_page_with: "count (page_with f n) i l = Inr n"
  by (simp add: page_with_def)

lemma advanced_page_with:
  "verdict (test_demo_workflow (page_with f (Suc n))) =
     Some (f (Locator ''#origin-contact-name'') \<noteq> [] \<and> f (Locator ''#origin-contact-company'') \<noteq> []
           \<and> f (Locator ''#origin-contact-phone'') \<noteq> [] \<and> f (Locator ''#origin-contact-email'') \<noteq> [])"
  by (simp add: test_demo_workflow_def run_block_page_with then_block_def then_if_count_def
      count_page_with verdict_finally_close Let_def launch_browser_def manufacturing_demo_def
      del: run_block.simps(2) respond.simps)

text \<open>
  Claim C9. On a page where every call returns and field \<open>l\<close> holds the string
  \<open>f l\<close>, test-demo-comprehensive.py counts as filled exactly the declared fields whose
  string is not empty: a field holding only a space counts as filled, an empty one does
  not. test-demo-advanced.py reports success exactly when none of its four strings is
  empty.
\<close>

theorem filled_means_not_empty:
  "summary_printed (test_complete_demo_workflow (page_with f n))
     = Some (summary (length (filter (\<lambda>l. f l \<noteq> []) declared_fields)) (length declared_fields))
   \<and> summary_printed (test_complete_demo_workflow (page_with (\<lambda>l. '' '') n))
     = Some \<lparr>total_tested = 17, successfully_filled = 17, rate = 100\<rparr>
   \<and> summary_printed (test_complete_demo_workflow (page_with (\<lambda>l. []) n))
     = Some \<lparr>total_tested = 17, successfully_filled = 0, rate = 0\<rparr>
   \<and> verdict (test_demo_workflow (page_with f (Suc n))) =
     Some (f (Locator ''#origin-contact-name'') \<noteq> [] \<and> f (Locator ''#origin-contact-company'') \<noteq> []
           \<and> f (Locator ''#origin-contact-phone'') \<noteq> [] \<and> f (Locator ''#origin-contact-email'') \<noteq> [])
   \<and> verdict (test_demo_workflow (page_with (\<lambda>l. '' '') (Suc n))) = Some True"
  by (simp add: workflow_page_with advanced_page_with length_declared_fields summary_def)


subsection \<open>Where a raise leaves the run\<close>

lemma prefix_snoc_unique:
  "prefix (p @ [w]) (xs @ w # rest) \<Longrightarrow> w \<notin> set xs \<Longrightarrow> w \<notin> set rest \<Longrightarrow> p = xs"
proof (induction xs arbitrary: p)
  case Nil
  show ?case
  proof (cases p)
    case Nil
    then show ?thesis by simp
  next
    case (Cons a p')
    with Nil.prems(1) have "prefix (p' @ [w]) rest" by simp
    then have "w \<in> set rest" using set_mono_prefix by fastforce
    with Nil.prems(3) show ?thesis by simp
  qed
next
  case (Cons x xs)
  show ?case
  proof (cases p)
    case Nil
    with Cons.prems(1,2) show ?thesis by simp
  next
    case (Cons a p')
    with Cons.prems have "a = x" and "prefix (p' @ [w]) (xs @ w # rest)" and "w \<notin> set xs"
      by simp_all
    with Cons.IH [of p'] Cons.prems(3) Cons show ?thesis by simp
  qed
qed

lemma workflow_raise_caught:
  assumes "(c, Raised e) \<in> set (calls (test_complete_demo_workflow A))" and "c \<in> set try_body"
  shows "\<exists>evs0 pre.
           run_block A 0 launch_browser = (None, evs0)
         \<and> run_block A 3 try_body = (Some e, pre @ [(c, Raised e)])
         \<and> list_all (\<lambda>ev. exception_of (snd ev) = None) pre
         \<and> test_complete_demo_workflow A =
             finally_close A
               (on_exception A ''demo_comprehensive_error.png'' False (evs0 @ pre @ [(c, Raised e)]))"
proof (cases A rule: workflow_cases)
  case (launch_failed e0 evs)
  from launch_failed(1) have "prefix (map fst evs) launch_browser" by (rule run_block_calls)
  then have "set (map fst evs) \<subseteq> set launch_browser" by (rule set_mono_prefix)
  moreover from assms(1) have "c \<in> set (map fst evs)"
    by (force simp: launch_failed(3))
  ultimately have "c \<in> set launch_browser" by blast
  with assms(2) show ?thesis by (simp add: launch_not_in_try_body)
next
  case (completed evs s)
  from completed(1) have "list_all (\<lambda>ev. exception_of (snd ev) = None) evs"
    by (simp add: run_block_None)
  then have "(c, Raised e) \<notin> set evs" by (auto simp: list_all_iff)
  with assms(1) have "c = Act Close"
    by (simp add: completed(3) calls_finally_close del: respond.simps)
  with assms(2) show ?thesis by (simp add: close_not_in_try_body)
next
  case (caught e0 evs0 new)
  from caught(2) obtain pre c0 where
    new: "new = pre @ [(c0, Raised e0)]" and
    clean: "list_all (\<lambda>ev. exception_of (snd ev) = None) pre"
    using run_block_Some by blast
  from caught(1) have "list_all (\<lambda>ev. exception_of (snd ev) = None) evs0"
    by (simp add: run_block_None)
  with clean have "(c, Raised e) \<notin> set evs0" "(c, Raised e) \<notin> set pre"
    by (auto simp: list_all_iff)
  moreover from assms(2) have "c \<noteq> Act (Screenshot ''demo_comprehensive_error.png'')" "c \<noteq> Act Close"
    using screenshot_not_in_try_body close_not_in_try_body by auto
  ultimately have "(c, Raised e) = (c0, Raised e0)"
    using assms(1)
    by (simp add: caught(4) new calls_finally_close calls_on_exception del: respond.simps)
  with caught new clean show ?thesis by auto
qed

lemma workflow_raise_calls:
  assumes "(c, Raised e) \<in> set (calls (test_complete_demo_workflow A))"
    and "try_body = xs @ c # rest" and "c \<notin> set xs" and "c \<notin> set rest"
  shows "map fst (calls (test_complete_demo_workflow A))
           = launch_browser @ xs @ [c, Act (Screenshot ''demo_comprehensive_error.png''), Act Close]"
proof -
  have "c \<in> set try_body" by (simp add: assms(2))
  from workflow_raise_caught [OF assms(1) this] obtain evs0 pre where
    l: "run_block A 0 launch_browser = (None, evs0)" and
    b: "run_block A 3 try_body = (Some e, pre @ [(c, Raised e)])" and
    w: "test_complete_demo_workflow A =
             finally_close A
               (on_exception A ''demo_comprehensive_error.png'' False (evs0 @ pre @ [(c, Raised e)]))"
    by blast
  from b have "prefix (map fst (pre @ [(c, Raised e)])) try_body" by (rule run_block_calls)
  then have "prefix (map fst pre @ [c]) (xs @ c # rest)" by (simp add: assms(2))
  then have "map fst pre = xs" using assms(3,4) by (rule prefix_snoc_unique)
  moreover from l have "map fst evs0 = launch_browser" by (simp add: run_block_None)
  ultimately show ?thesis
    by (simp add: w calls_finally_close calls_on_exception del: respond.simps)
qed


subsection \<open>A missed navigation\<close>



lemma exit_code_not_true:
  "outcome r = Returned False \<or> (\<exists>e'. outcome r = Uncaught e') \<Longrightarrow> exit_code (outcome r) = 1"
  by auto



subsection \<open>Blocks after blocks\<close>

lemma then_block_skip: "then_block A cs (Some e, evs) = (Some e, evs)"
  by (simp add: then_block_def)

lemma then_block_run:
  "then_block A cs (None, evs) =
     (fst (run_block A (length evs) cs), evs @ snd (run_block A (length evs) cs))"
  by (simp add: then_block_def split: prod.splits)

lemma then_if_count_skip: "then_if_count A l found missing (Some e, evs) = (Some e, evs)"
  by (simp add: then_if_count_def)

lemma then_if_count_raised:
  "count A (length evs) l = Inl e \<Longrightarrow>
     then_if_count A l found missing (None, evs) = (Some e, evs @ [(Count l, Raised e)])"
  by (simp add: then_if_count_def)

lemma then_if_count_counted:
  "count A (length evs) l = Inr n \<Longrightarrow>
     then_if_count A l found missing (None, evs) =
       (fst (run_block A (Suc (length evs)) (if n > 0 then found else missing)),
        evs @ (Count l, Number n) # snd (run_block A (Suc (length evs)) (if n > 0 then found else missing)))"
  by (simp add: then_if_count_def then_block_run)

lemma run_block_sound:
  "fst (run_block A i cs) = None \<longleftrightarrow> list_all (\<lambda>ev. exception_of (snd ev) = None) (snd (run_block A i cs))"
proof (cases "fst (run_block A i cs)")
  case None
  then have "run_block A i cs = (None, snd (run_block A i cs))" by (metis prod.collapse)
  then show ?thesis using None run_block_None by blast
next
  case (Some e)
  then have "run_block A i cs = (Some e, snd (run_block A i cs))" by (metis prod.collapse)
  then obtain pre c where "snd (run_block A i cs) = pre @ [(c, Raised e)]"
    using run_block_Some by blast
  with Some show ?thesis by simp
qed

lemma run_block_calls_subset: "set (map fst (snd (run_block A i cs))) \<subseteq> set cs"
proof -
  have "run_block A i cs = (fst (run_block A i cs), snd (run_block A i cs))" by simp
  then have "prefix (map fst (snd (run_block A i cs))) cs" by (rule run_block_calls)
  then show ?thesis by (rule set_mono_prefix)
qed

lemma then_block_sound: "sound s \<Longrightarrow> sound (then_block A cs s)"
proof (cases s)
  case (Pair x evs)
  assume "sound s"
  with Pair show ?thesis
    by (cases x) (auto simp: sound_def then_block_skip then_block_run run_block_sound)
qed

lemma then_block_calls_subset:
  "set (map fst (snd (then_block A cs s))) \<subseteq> set (map fst (snd s)) \<union> set cs"
proof (cases s)
  case (Pair x evs)
  show ?thesis
  proof (cases x)
    case None
    with Pair run_block_calls_subset [of A "length evs" cs] show ?thesis
      by (auto simp: then_block_run)
  next
    case (Some e)
    with Pair show ?thesis by (simp add: then_block_skip)
  qed
qed

lemma then_if_count_sound: "sound s \<Longrightarrow> sound (then_if_count A l found missing s)"
proof (cases s)
  case (Pair x evs)
  assume s: "sound s"
  show ?thesis
  proof (cases x)
    case (Some e)
    with Pair s show ?thesis by (simp add: then_if_count_skip)
  next
    case None
    show ?thesis
    proof (cases "count A (length evs) l")
      case (Inl e)
      with Pair None show ?thesis by (simp add: then_if_count_raised sound_def)
    next
      case (Inr n)
      with Pair None s show ?thesis
        by (simp add: then_if_count_counted sound_def run_block_sound)
    qed
  qed
qed

lemma then_if_count_calls_subset:
  "set (map fst (snd (then_if_count A l found missing s)))
     \<subseteq> set (map fst (snd s)) \<union> {Count l} \<union> set found \<union> set missing"
proof (cases s)
  case (Pair x evs)
  show ?thesis
  proof (cases x)
    case (Some e)
    with Pair show ?thesis by (auto simp add: then_if_count_skip)
  next
    case None
    show ?thesis
    proof (cases "count A (length evs) l")
      case (Inl e)
      with Pair None show ?thesis by (auto simp add: then_if_count_raised)
    next
      case (Inr n)
      with Pair None run_block_calls_subset [of A "Suc (length evs)" "if n > 0 then found else missing"]
      show ?thesis
        by (auto simp add: then_if_count_counted split: if_splits)
    qed
  qed
qed


subsection \<open>test-demo.py without a button\<close>

lemma system_cases [case_names launch_failed ran]:
  obtains
    (launch_failed) e evs where
      "run_block A 0 launch_browser = (Some e, evs)"
      "test_demo_system A =
         \<lparr>calls = evs, summary_printed = None, verdict = None, outcome = Uncaught e\<rparr>"
  | (ran) x3 evs3 where
      "sound (x3, evs3)"
      "set (map fst evs3) \<subseteq> set before_buttons"
      "test_demo_system A =
         finally_close A
           (case then_if_count A (Locator start_demo) start_first_demo [Act Content] (x3, evs3) of
              (Some e, evs) \<Rightarrow> on_exception A ''demo_error.png'' () evs
            | (None, evs) \<Rightarrow>
                \<lparr>calls = evs, summary_printed = None, verdict = None, outcome = Returned ()\<rparr>)"
proof -
  obtain x0 evs0 where l: "run_block A 0 launch_browser = (x0, evs0)"
    by (cases "run_block A 0 launch_browser")
  show thesis
  proof (cases x0)
    case (Some e)
    with l show thesis
      by (intro launch_failed [of e evs0]) (simp_all add: test_demo_system_def)
  next
    case None
    define s1 where "s1 = then_block A
        [Act (Goto demo_url (Some ''networkidle'')), Act (Screenshot ''demo_initial.png''), Act Title]
        (None, evs0)"
    define s2 where "s2 = then_if_count A (Locator ''h1'') [Act (Inner_text (First ''h1''))] [] s1"
    define s3 where "s3 = then_block A [Count (Locator demo_cards)] s2"
    from l None have c0: "map fst evs0 = launch_browser"
      and "list_all (\<lambda>ev. exception_of (snd ev) = None) evs0"
      by (simp_all add: run_block_None)
    then have "sound (None, evs0)" by (simp add: sound_def)
    then have "sound s3"
      unfolding s3_def s2_def s1_def
      by (intro then_block_sound then_if_count_sound)
    moreover
    have "set (map fst (snd s1)) \<subseteq> set (map fst (snd (None :: exn option, evs0)))
            \<union> set [Act (Goto demo_url (Some ''networkidle'')), Act (Screenshot ''demo_initial.png''), Act Title]"
      unfolding s1_def by (rule then_block_calls_subset)
    moreover have "set (map fst (snd s2)) \<subseteq> set (map fst (snd s1))
            \<union> {Count (Locator ''h1'')} \<union> set [Act (Inner_text (First ''h1''))] \<union> set []"
      unfolding s2_def by (rule then_if_count_calls_subset)
    moreover have "set (map fst (snd s3)) \<subseteq> set (map fst (snd s2)) \<union> set [Count (Locator demo_cards)]"
      unfolding s3_def by (rule then_block_calls_subset)
    moreover have "set before_buttons =
        set (map fst (snd (None :: exn option, evs0)))
        \<union> set [Act (Goto demo_url (Some ''networkidle'')), Act (Screenshot ''demo_initial.png''), Act Title]
        \<union> {Count (Locator ''h1'')} \<union> set [Act (Inner_text (First ''h1''))] \<union> set []
        \<union> set [Count (Locator demo_cards)]"
      by (simp add: before_buttons_def c0) blast
    ultimately have "sound (fst s3, snd s3)" and "set (map fst (snd s3)) \<subseteq> set before_buttons"
      by (simp, blast)
    moreover from l None have "test_demo_system A =
         finally_close A
           (case then_if_count A (Locator start_demo) start_first_demo [Act Content] (fst s3, snd s3) of
              (Some e, evs) \<Rightarrow> on_exception A ''demo_error.png'' () evs
            | (None, evs) \<Rightarrow>
                \<lparr>calls = evs, summary_printed = None, verdict = None, outcome = Returned ()\<rparr>)"
      by (simp add: test_demo_system_def s3_def s2_def s1_def Let_def)
    ultimately show thesis by (rule ran)
  qed
qed


lemma run_block_single:
  "run_block A i [c] = (exception_of (respond A i c), [(c, respond A i c)])"
proof (cases "exception_of (respond A i c)")
  case None
  then show ?thesis by (simp add: run_block_step del: run_block.simps(2))
next
  case (Some e)
  moreover from Some have "respond A i c = Raised e" by (simp add: exception_of_Some)
  ultimately show ?thesis by (simp add: run_block_step del: run_block.simps(2) respond.simps)
qed

lemma system_prints_no_summary:
  "summary_printed (test_demo_system A) = None \<and> verdict (test_demo_system A) = None"
proof (cases A rule: system_cases)
  case (launch_failed e evs)
  then show ?thesis by simp
next
  case (ran x3 evs3)
  show ?thesis
    by (simp add: ran(3) summary_finally_close verdict_finally_close summary_on_exception
        verdict_on_exception split: prod.splits option.splits)
qed

lemma no_button_before_buttons:
  "Count (Locator start_demo) \<notin> set before_buttons" "Act (Click l) \<notin> set before_buttons"
  by (simp_all add: before_buttons_def launch_browser_def start_demo_def demo_cards_def)

lemma no_button_in_start_first_demo: "Count (Locator start_demo) \<notin> set start_first_demo"
  by (simp add: start_first_demo_def start_demo_def demo_controls_def progress_bar_def)

lemma system_without_button:
  assumes H: "(Count (Locator start_demo), Number 0) \<in> set (calls (test_demo_system A))"
  shows "(\<forall>l r. (Act (Click l), r) \<notin> set (calls (test_demo_system A)))
       \<and> (\<exists>r. (Act Content, r) \<in> set (calls (test_demo_system A)))
       \<and> (list_all (\<lambda>ev. exception_of (snd ev) = None) (calls (test_demo_system A))
            \<longrightarrow> outcome (test_demo_system A) = Returned ())"
proof (cases A rule: system_cases)
  case (launch_failed e evs)
  from launch_failed(1) have "prefix (map fst evs) launch_browser" by (rule run_block_calls)
  then have "set (map fst evs) \<subseteq> set launch_browser" by (rule set_mono_prefix)
  moreover from H have "Count (Locator start_demo) \<in> set (map fst evs)"
    by (force simp: launch_failed(2))
  ultimately have "Count (Locator start_demo) \<in> set launch_browser" by blast
  then show ?thesis by (simp add: launch_browser_def)
next
  case (ran x3 evs3)
  have nb: "\<And>r. (Count (Locator start_demo), r) \<notin> set evs3"
    using ran(2) no_button_before_buttons(1) by force
  have nc: "\<And>l r. (Act (Click l), r) \<notin> set evs3"
    using ran(2) no_button_before_buttons(2) by force
  show ?thesis
  proof (cases x3)
    case (Some e)
    with H nb show ?thesis
      by (simp add: ran(3) then_if_count_skip calls_finally_close calls_on_exception
          del: respond.simps)
  next
    case None
    show ?thesis
    proof (cases "count A (length evs3) (Locator start_demo)")
      case (Inl e)
      with H nb None show ?thesis
        by (simp add: ran(3) then_if_count_raised calls_finally_close calls_on_exception
            del: respond.simps)
    next
      case (Inr n)
      show ?thesis
      proof (cases "n > 0")
        case True
        define new where "new = snd (run_block A (Suc (length evs3)) start_first_demo)"
        have "set (map fst new) \<subseteq> set start_first_demo"
          unfolding new_def by (rule run_block_calls_subset)
        then have nn: "\<And>r. (Count (Locator start_demo), r) \<notin> set new"
          using no_button_in_start_first_demo by force
        from Inr None True have
          "then_if_count A (Locator start_demo) start_first_demo [Act Content] (x3, evs3)
             = (fst (run_block A (Suc (length evs3)) start_first_demo),
                evs3 @ (Count (Locator start_demo), Number n) # new)"
          by (simp add: then_if_count_counted new_def)
        with H nb nn True show ?thesis
          by (simp add: ran(3) calls_finally_close calls_on_exception
              del: respond.simps split: option.splits)
      next
        case False
        define r where "r = respond A (Suc (length evs3)) (Act Content)"
        from Inr None False have t:
          "then_if_count A (Locator start_demo) start_first_demo [Act Content] (x3, evs3)
             = (exception_of r, evs3 @ [(Count (Locator start_demo), Number n), (Act Content, r)])"
          by (simp add: then_if_count_counted run_block_single r_def
              del: respond.simps run_block.simps(2))
        from ran(1) None have clean3: "list_all (\<lambda>ev. exception_of (snd ev) = None) evs3"
          by (simp add: sound_def)
        show ?thesis
        proof (cases "exception_of r")
          case None
          with nc clean3 show ?thesis
            by (auto simp add: ran(3) t calls_finally_close outcome_finally_close
                simp del: respond.simps split: option.splits)
        next
          case (Some e)
          with nc show ?thesis
            by (auto simp add: ran(3) t calls_finally_close calls_on_exception
                simp del: respond.simps)
        qed
      qed
    qed
  qed
qed


lemma system_no_buttons_run:
  "test_demo_system (page_with f 0) =
     \<lparr>calls = map (\<lambda>c. (c, reply f 0 c))
        (launch_browser
         @ [Act (Goto demo_url (Some ''networkidle'')), Act (Screenshot ''demo_initial.png''),
            Act Title, Count (Locator ''h1''), Count (Locator demo_cards),
            Count (Locator start_demo), Act Content, Act Close]),
      summary_printed = None, verdict = None, outcome = Returned ()\<rparr>"
  by (simp add: test_demo_system_def run_block_page_with then_block_def then_if_count_def
      count_page_with finally_close_def respond_page_with Let_def launch_browser_def
      del: run_block.simps(2) respond.simps)

lemma click_in_try_body: "Act (Click (First start_demo)) \<in> set try_body"
  by (simp add: try_body_def)

lemma no_trigger_run:
  "test_complete_demo_workflow no_trigger =
     \<lparr>calls =
        [(Act Launch, Done), (Act New_context, Done), (Act New_page, Done),
         (Act (Goto demo_url (Some ''networkidle'')), Done),
         (Act (Click (First start_demo)), Raised (TimeoutError ''Timeout 30000ms exceeded'')),
         (Act (Screenshot ''demo_comprehensive_error.png''), Done),
         (Act Close, Done)],
      summary_printed = None, verdict = None, outcome = Returned False\<rparr>"
  unfolding no_trigger_def
  by (simp add: workflow_failing_on [OF click_in_try_body])
     (simp add: launch_browser_def try_body_def)

text \<open>
  Claim C4 does not hold as stated: on a page where the count of start buttons is 0,
  test-demo.py makes all its calls without any of them raising and returns normally; and
  test-demo-comprehensive.py, whose click raises Playwright's timeout, returns
  \<open>False\<close>. Neither raises an error of its own.
\<close>

theorem missing_trigger_raises_nothing:
  "(Count (Locator start_demo), Number 0) \<in> set (calls (test_demo_system (page_with partly_filled 0)))
   \<and> map snd (calls (test_demo_system (page_with partly_filled 0)))
       = [Done, Done, Done, Done, Done, Done, Number 0, Number 0, Number 0, Done, Done]
   \<and> outcome (test_demo_system (page_with partly_filled 0)) = Returned ()
   \<and> outcome (test_complete_demo_workflow no_trigger) = Returned False"
  by (simp add: system_no_buttons_run no_trigger_run launch_browser_def)

lemma try_body_split_click:
  "try_body =
     [Act (Goto demo_url (Some ''networkidle''))]
     @ Act (Click (First start_demo))
     # (Act (Wait_for_url ''**/shipping'' 10000)
        # step 5000 step1_fields @ step 5000 step2_fields @ step 5000 step3_fields
        @ step 5000 step4_fields @ [Act (Screenshot ''demo_comprehensive_final.png'')])"
  by (simp add: try_body_def)

text \<open>
  Claim C4, amended. In every run of test-demo.py in which the count of start buttons is
  0, the script clicks nothing: it asks for the page content instead, prints no summary
  and no verdict, and returns normally when no call raises. test-demo-comprehensive.py
  does not count the buttons: in every run in which its click raises, the calls made are
  the launch, the navigation, the click, the error screenshot and the close, no summary
  and no verdict are printed and the exit status is 1.
\<close>

theorem missing_trigger:
  "((Count (Locator start_demo), Number 0) \<in> set (calls (test_demo_system A)) \<longrightarrow>
       (\<forall>l r. (Act (Click l), r) \<notin> set (calls (test_demo_system A)))
     \<and> (\<exists>r. (Act Content, r) \<in> set (calls (test_demo_system A)))
     \<and> summary_printed (test_demo_system A) = None
     \<and> verdict (test_demo_system A) = None
     \<and> (list_all (\<lambda>ev. exception_of (snd ev) = None) (calls (test_demo_system A))
          \<longrightarrow> outcome (test_demo_system A) = Returned ()))
   \<and> ((Act (Click (First start_demo)), Raised e) \<in> set (calls (test_complete_demo_workflow B)) \<longrightarrow>
         map fst (calls (test_complete_demo_workflow B))
           = launch_browser
             @ [Act (Goto demo_url (Some ''networkidle'')), Act (Click (First start_demo)),
                Act (Screenshot ''demo_comprehensive_error.png''), Act Close]
       \<and> summary_printed (test_complete_demo_workflow B) = None
       \<and> verdict (test_complete_demo_workflow B) = None
       \<and> exit_code (outcome (test_complete_demo_workflow B)) = 1)"
proof (intro conjI impI)
  assume H: "(Count (Locator start_demo), Number 0) \<in> set (calls (test_demo_system A))"
  from system_without_button [OF H]
  show "\<forall>l r. (Act (Click l), r) \<notin> set (calls (test_demo_system A))"
    and "\<exists>r. (Act Content, r) \<in> set (calls (test_demo_system A))"
    by blast+
  from system_prints_no_summary
  show "summary_printed (test_demo_system A) = None" and "verdict (test_demo_system A) = None"
    by blast+
  assume "list_all (\<lambda>ev. exception_of (snd ev) = None) (calls (test_demo_system A))"
  with system_without_button [OF H] show "outcome (test_demo_system A) = Returned ()" by blast
next
  assume H: "(Act (Click (First start_demo)), Raised e) \<in> set (calls (test_complete_demo_workflow B))"
  have "map fst (calls (test_complete_demo_workflow B))
           = launch_browser
             @ [Act (Goto demo_url (Some ''networkidle''))]
             @ [Act (Click (First start_demo)),
                Act (Screenshot ''demo_comprehensive_error.png''), Act Close]"
    using H try_body_split_click
    by (rule workflow_raise_calls) (simp_all add: script_defs)
  then show "map fst (calls (test_complete_demo_workflow B))
           = launch_browser
             @ [Act (Goto demo_url (Some ''networkidle'')), Act (Click (First start_demo)),
                Act (Screenshot ''demo_comprehensive_error.png''), Act Close]"
    by simp
  have r: "summary_printed (test_complete_demo_workflow B) = None
       \<and> verdict (test_complete_demo_workflow B) = None
       \<and> (outcome (test_complete_demo_workflow B) = Returned False
            \<or> (\<exists>e'. outcome (test_complete_demo_workflow B) = Uncaught e'))"
    using workflow_raise_in_body [OF H click_in_try_body] by blast
  then show "summary_printed (test_complete_demo_workflow B) = None"
    and "verdict (test_complete_demo_workflow B) = None" by blast+
  from r show "exit_code (outcome (test_complete_demo_workflow B)) = 1"
    using exit_code_not_true by blast
qed

theorem missing_trigger_witness:
  "(Count (Locator start_demo), Number 0) \<in> set (calls (test_demo_system (page_with partly_filled 0)))
   \<and> (Act (Click (First start_demo)), Done) \<notin> set (calls (test_demo_system (page_with partly_filled 0)))
   \<and> summary_printed (test_demo_system (page_with partly_filled 0)) = None
   \<and> list_all (\<lambda>ev. exception_of (snd ev) = None) (calls (test_demo_system (page_with partly_filled 0)))
   \<and> outcome (test_demo_system (page_with partly_filled 0)) = Returned ()
   \<and> (Act (Click (First start_demo)), Raised (TimeoutError ''Timeout 30000ms exceeded''))
        \<in> set (calls (test_complete_demo_workflow no_trigger))
   \<and> summary_printed (test_complete_demo_workflow no_trigger) = None
   \<and> exit_code (outcome (test_complete_demo_workflow no_trigger)) = 1"
proof -
  have h1: "(Count (Locator start_demo), Number 0)
              \<in> set (calls (test_demo_system (page_with partly_filled 0)))"
    and h2: "list_all (\<lambda>ev. exception_of (snd ev) = None)
               (calls (test_demo_system (page_with partly_filled 0)))"
    by (simp_all add: system_no_buttons_run launch_browser_def)
  have h3: "(Act (Click (First start_demo)), Raised (TimeoutError ''Timeout 30000ms exceeded''))
        \<in> set (calls (test_complete_demo_workflow no_trigger))"
    by (simp add: no_trigger_run)
  from missing_trigger [of "page_with partly_filled 0" "TimeoutError ''Timeout 30000ms exceeded''" no_trigger]
    h1 h2 h3
  show ?thesis by blast
qed

subsection \<open>The field loop of test-demo-final.py\<close>























end
